theory Spec2Isabelle
  imports Complex_Main
begin

section \<open>Numbers of the source\<close>

text \<open>
  The source is JavaScript: every number is an IEEE double. Counts, sizes, indices and
  delays are integers far below \<open>2^53\<close> and are modelled by \<open>nat\<close> and \<open>int\<close>. Fractional
  quantities (sharpening strength, kernel weights, battery level, quality reduction) are
  modelled by exact real numbers: \<open>0.3\<close> is \<open>3/10\<close>. The model therefore computes
  without the rounding error of the doubles.
\<close>

section \<open>Resource budget of the mobile enhancer (\<open>ImageEnhancerMobile\<close>)\<close>

datatype capability = Low | Medium | High

record settings =
  maxImageSize :: nat
  maxBatchSize :: nat
  processingDelay :: int
  qualityReduction :: real
  enableProgressiveProcessing :: bool
  enableMemoryMonitoring :: bool

text \<open>\<open>getOptimizationSettings\<close>: the defaults, then the \<open>switch\<close> on the capability level.\<close>

definition defaultSettings :: settings where
  "defaultSettings =
     \<lparr> maxImageSize = 2048 * 1536, maxBatchSize = 1, processingDelay = 200,
       qualityReduction = 1 / 10, enableProgressiveProcessing = True,
       enableMemoryMonitoring = True \<rparr>"

fun getOptimizationSettings :: "capability \<Rightarrow> settings" where
  "getOptimizationSettings Low =
     defaultSettings \<lparr> maxImageSize := 1024 * 768, maxBatchSize := 1,
                       processingDelay := 500, qualityReduction := 2 / 10 \<rparr>"
| "getOptimizationSettings Medium =
     defaultSettings \<lparr> maxImageSize := 1920 * 1080, maxBatchSize := 1,
                       processingDelay := 200, qualityReduction := 1 / 10 \<rparr>"
| "getOptimizationSettings High =
     defaultSettings \<lparr> maxImageSize := 2560 * 1920, maxBatchSize := 2,
                       processingDelay := 100, qualityReduction := 5 / 100 \<rparr>"

text \<open>
  The state of the enhancer object that the battery handlers touch: the capability level
  fixed by the constructor, the mutable settings, and the warnings handed to
  \<open>window.fileHandler.showWarning\<close> (none when \<open>window.fileHandler\<close> is absent).
\<close>

datatype notice = PowerSaveNotice

record enhancerMobile =
  deviceLevel :: capability
  optimizationSettings :: settings
  fileHandlerPresent :: bool
  shownWarnings :: "notice list"

definition newEnhancerMobile :: "capability \<Rightarrow> bool \<Rightarrow> enhancerMobile" where
  "newEnhancerMobile lvl fh =
     \<lparr> deviceLevel = lvl, optimizationSettings = getOptimizationSettings lvl,
       fileHandlerPresent = fh, shownWarnings = [] \<rparr>"

definition showWarning :: "notice \<Rightarrow> enhancerMobile \<Rightarrow> enhancerMobile" where
  "showWarning n m =
     (if fileHandlerPresent m then m \<lparr> shownWarnings := shownWarnings m @ [n] \<rparr> else m)"

definition adjustForBatteryLevel :: "real \<Rightarrow> enhancerMobile \<Rightarrow> enhancerMobile" where
  "adjustForBatteryLevel level m =
     (if level < 2 / 10 then
        showWarning PowerSaveNotice
          (m \<lparr> optimizationSettings :=
                 (optimizationSettings m) \<lparr> maxBatchSize := 1, processingDelay := 1000 \<rparr> \<rparr>)
      else if level < 5 / 10 then
        m \<lparr> optimizationSettings :=
              (optimizationSettings m) \<lparr> maxBatchSize := 1, processingDelay := 500 \<rparr> \<rparr>
      else
        m \<lparr> optimizationSettings :=
              (optimizationSettings m)
                \<lparr> maxBatchSize := (if deviceLevel m = High then 2 else 1),
                  processingDelay := 200 \<rparr> \<rparr>)"

definition adjustForChargingState :: "bool \<Rightarrow> enhancerMobile \<Rightarrow> enhancerMobile" where
  "adjustForChargingState isCharging m =
     (if isCharging then
        m \<lparr> optimizationSettings :=
              (optimizationSettings m)
                \<lparr> processingDelay := max 100 (processingDelay (optimizationSettings m) - 100) \<rparr> \<rparr>
      else
        m \<lparr> optimizationSettings :=
              (optimizationSettings m)
                \<lparr> processingDelay := processingDelay (optimizationSettings m) + 100 \<rparr> \<rparr>)"

text \<open>
  \<open>setupBatteryOptimizations\<close> applies the level override and then the charging override
  to the settings the constructor derived from the tier.
\<close>

definition initialBatteryOptimization :: "real \<Rightarrow> bool \<Rightarrow> enhancerMobile \<Rightarrow> enhancerMobile" where
  "initialBatteryOptimization level charging m =
     adjustForChargingState charging (adjustForBatteryLevel level m)"

section \<open>Order detection (\<open>OrderDetector\<close>)\<close>

text \<open>
  A JavaScript string is modelled by a \<open>string\<close> of bytes (UTF-8 for the two localized
  cover names). \<open>toLowerCase\<close> is modelled on the ASCII letters, \<open>\d\<close> is an ASCII digit,
  and \<open>parseInt(ds, 10)\<close> of a digit string is its exact value.
\<close>

record dims =
  width :: nat
  height :: nat

record fileInfo =
  fileId :: string
  name :: string
  size :: nat
  mimeType :: string
  lastModified :: nat
  imageData :: string
  dimensions :: dims
  originalIndex :: nat
  enhanced :: bool
  enhancementLevel :: "nat option"







































section \<open>Canvas and pixel buffers\<close>

text \<open>
  A 2D context with its canvas: the canvas size and the RGBA bytes, row by row, four
  bytes per pixel. \<open>getImageData\<close> copies a rectangle (transparent black outside the
  canvas, \<open>IndexSizeError\<close> for an empty rectangle), \<open>createImageData\<close> gives a
  transparent black buffer, \<open>putImageData\<close> writes a buffer back at an offset, clipped to
  the canvas. The canvas keeps the bytes it is given.
\<close>

datatype error =
    IndexSizeError
  | TypeError
  | OutOfMemory
  | ImageLoadFailed
  | EnhancementFailed
  | ProcessingPaused string

record ctx2d =
  canvasWidth :: nat
  canvasHeight :: nat
  canvasData :: "nat list"

record imageBuffer =
  bufWidth :: nat
  bufHeight :: nat
  pixelData :: "nat list"

definition canvasByte :: "ctx2d \<Rightarrow> nat \<Rightarrow> nat \<Rightarrow> nat \<Rightarrow> nat" where
  "canvasByte ctx x y c =
     (if x < canvasWidth ctx \<and> y < canvasHeight ctx
      then canvasData ctx ! ((y * canvasWidth ctx + x) * 4 + c)
      else 0)"

definition getImageData :: "ctx2d \<Rightarrow> nat \<Rightarrow> nat \<Rightarrow> nat \<Rightarrow> nat \<Rightarrow> error + imageBuffer" where
  "getImageData ctx sx sy sw sh =
     (if sw = 0 \<or> sh = 0 then Inl IndexSizeError
      else Inr \<lparr> bufWidth = sw, bufHeight = sh,
                 pixelData =
                   map (\<lambda>m. canvasByte ctx (sx + (m div 4) mod sw) (sy + (m div 4) div sw)
                               (m mod 4))
                     [0..<sw * sh * 4] \<rparr>)"

definition createImageData :: "nat \<Rightarrow> nat \<Rightarrow> error + imageBuffer" where
  "createImageData sw sh =
     (if sw = 0 \<or> sh = 0 then Inl IndexSizeError
      else Inr \<lparr> bufWidth = sw, bufHeight = sh, pixelData = replicate (sw * sh * 4) 0 \<rparr>)"

definition putImageData :: "ctx2d \<Rightarrow> imageBuffer \<Rightarrow> nat \<Rightarrow> nat \<Rightarrow> ctx2d" where
  "putImageData ctx img dx dy =
     ctx \<lparr> canvasData :=
       map (\<lambda>k. let px = (k div 4) mod canvasWidth ctx;
                    py = (k div 4) div canvasWidth ctx
                in if dx \<le> px \<and> px < dx + bufWidth img \<and> dy \<le> py \<and> py < dy + bufHeight img
                   then pixelData img ! (((py - dy) * bufWidth img + (px - dx)) * 4 + k mod 4)
                   else canvasData ctx ! k)
           [0..<length (canvasData ctx)] \<rparr>"

text \<open>
  Reading a typed array out of range gives \<open>undefined\<close> (\<open>None\<close>), which is \<open>NaN\<close> in
  arithmetic. A store into a \<open>Uint8ClampedArray\<close> turns \<open>NaN\<close> into 0, clamps to
  \<open>[0, 255]\<close> and rounds to the nearest integer, ties to the even one.
\<close>

definition element :: "nat list \<Rightarrow> nat \<Rightarrow> nat option" where
  "element xs i = (if i < length xs then Some (xs ! i) else None)"

definition toUint8Clamp :: "real option \<Rightarrow> nat" where
  "toUint8Clamp v =
     (case v of
        None \<Rightarrow> 0
      | Some r \<Rightarrow>
          if r \<le> 0 then 0
          else if r \<ge> 255 then 255
          else let f = \<lfloor>r\<rfloor> in
               if r - of_int f < 1 / 2 then nat f
               else if r - of_int f > 1 / 2 then nat (f + 1)
               else if even f then nat f else nat (f + 1))"

definition storeElement :: "nat option \<Rightarrow> nat" where
  "storeElement v = toUint8Clamp (map_option real v)"

text \<open>\<open>Math.max(0, Math.min(255, v))\<close>; \<open>NaN\<close> stays \<open>NaN\<close>.\<close>

definition clamp255 :: "real option \<Rightarrow> real option" where
  "clamp255 v = map_option (\<lambda>r. max 0 (min 255 r)) v"

definition addNumber :: "real option \<Rightarrow> real option \<Rightarrow> real option" where
  "addNumber a b = (case a of None \<Rightarrow> None | Some x \<Rightarrow> map_option (\<lambda>y. x + y) b)"

definition scaleElement :: "nat option \<Rightarrow> real \<Rightarrow> real option" where
  "scaleElement v k = map_option (\<lambda>n. real n * k) v"

fun foldE :: "('a \<Rightarrow> 's \<Rightarrow> error + 's) \<Rightarrow> 'a list \<Rightarrow> 's \<Rightarrow> error + 's" where
  "foldE f [] s = Inr s"
| "foldE f (x # xs) s = (case f x s of Inl e \<Rightarrow> Inl e | Inr s' \<Rightarrow> foldE f xs s')"

section \<open>The enhancement engine (\<open>ImageEnhancerCore\<close>)\<close>

text \<open>\<open>enhancementLevels[level].strength\<close>; any other level has no entry.\<close>

definition enhancementStrength :: "nat \<Rightarrow> real option" where
  "enhancementStrength level =
     (if level = 0 then Some 0
      else if level = 1 then Some (3 / 10)
      else if level = 2 then Some (6 / 10)
      else if level = 3 then Some 1
      else None)"

text \<open>The 3x3 kernel literal, the same in the full-frame and in the tiled path.\<close>

definition sharpenKernel :: "real \<Rightarrow> real list" where
  "sharpenKernel strength =
     [0, - 1 * strength, 0,
      - 1 * strength, 1 + 4 * strength, - 1 * strength,
      0, - 1 * strength, 0]"

text \<open>
  The two inner loops over \<open>ky\<close> and \<open>kx\<close> (here shifted to \<open>0..2\<close>): the weighted sum of
  the nine neighbours of pixel \<open>(x, y)\<close> in channel \<open>c\<close> of a buffer \<open>w\<close> pixels wide.
\<close>

definition convolve :: "nat list \<Rightarrow> nat \<Rightarrow> real list \<Rightarrow> nat \<Rightarrow> nat \<Rightarrow> nat \<Rightarrow> real option" where
  "convolve dat w kern y x c =
     foldl (\<lambda>sum (ky, kx).
              addNumber sum
                (scaleElement (element dat (((y + ky - 1) * w + (x + kx - 1)) * 4 + c))
                   (kern ! (ky * 3 + kx))))
       (Some 0)
       [(0, 0), (0, 1), (0, 2), (1, 0), (1, 1), (1, 2), (2, 0), (2, 1), (2, 2)]"

definition sharpenStep ::
    "nat list \<Rightarrow> nat \<Rightarrow> real list \<Rightarrow> nat \<Rightarrow> nat \<Rightarrow> nat \<Rightarrow> nat list \<Rightarrow> nat list" where
  "sharpenStep dat w kern y x c newData =
     newData [(y * w + x) * 4 + c := toUint8Clamp (clamp255 (convolve dat w kern y x c))]"

text \<open>The loops \<open>y = 1 .. h - 2\<close>, \<open>x = 1 .. w - 2\<close>, \<open>c = 0 .. 2\<close>.\<close>

definition sharpenInterior :: "nat list \<Rightarrow> nat \<Rightarrow> nat \<Rightarrow> real list \<Rightarrow> nat list \<Rightarrow> nat list" where
  "sharpenInterior dat w h kern newData =
     fold (\<lambda>y. fold (\<lambda>x. fold (\<lambda>c. sharpenStep dat w kern y x c) [0..<3]) [1..<w - 1])
       [1..<h - 1] newData"

definition applyHighQualitySharpening :: "ctx2d \<Rightarrow> nat \<Rightarrow> nat \<Rightarrow> real \<Rightarrow> error + ctx2d" where
  "applyHighQualitySharpening ctx w h strength =
     (case getImageData ctx 0 0 w h of
        Inl e \<Rightarrow> Inl e
      | Inr img \<Rightarrow>
          let dat = pixelData img;
              newData = sharpenInterior dat w h (sharpenKernel strength) dat
          in Inr (putImageData ctx \<lparr> bufWidth = w, bufHeight = h, pixelData = newData \<rparr> 0 0))"

text \<open>
  \<open>processImageBlock\<close>. The block is read with a halo of \<open>padding = 1\<close> pixel, clipped to
  the canvas: \<open>x = max(0, startX - 1)\<close>. The copy into \<open>centerArray\<close> reads at
  \<open>(px + padding, py + padding)\<close> of the block, whether or not the halo was clipped. The
  alpha byte is read from \<open>data\<close>, the colours from \<open>newData\<close>. For a block origin
  inside the canvas, as \<open>applyOptimizedSharpening\<close> passes it, the sizes \<open>w\<close> and \<open>h\<close>
  are positive.
\<close>

definition copyCenterPixel ::
    "nat list \<Rightarrow> nat list \<Rightarrow> nat \<Rightarrow> nat \<Rightarrow> nat \<Rightarrow> nat \<Rightarrow> nat \<Rightarrow> nat list \<Rightarrow> nat list" where
  "copyCenterPixel dat newData w blockWidth padding py px centerArray =
     (let srcPos = ((py + padding) * w + (px + padding)) * 4;
          dstPos = (py * blockWidth + px) * 4
      in centerArray
           [dstPos := storeElement (element newData srcPos),
            dstPos + 1 := storeElement (element newData (srcPos + 1)),
            dstPos + 2 := storeElement (element newData (srcPos + 2)),
            dstPos + 3 := storeElement (element dat (srcPos + 3))])"

definition processImageBlock ::
    "ctx2d \<Rightarrow> nat \<Rightarrow> nat \<Rightarrow> nat \<Rightarrow> nat \<Rightarrow> real \<Rightarrow> error + ctx2d" where
  "processImageBlock ctx startX startY blockWidth blockHeight strength =
     (let padding = 1;
          x = nat (max 0 (int startX - int padding));
          y = nat (max 0 (int startY - int padding));
          w = nat (min (int (canvasWidth ctx) - int x) (int blockWidth + 2 * int padding));
          h = nat (min (int (canvasHeight ctx) - int y) (int blockHeight + 2 * int padding))
      in case getImageData ctx x y w h of
           Inl e \<Rightarrow> Inl e
         | Inr img \<Rightarrow>
             let dat = pixelData img;
                 newData = sharpenInterior dat w h (sharpenKernel strength) dat
             in case createImageData blockWidth blockHeight of
                  Inl e \<Rightarrow> Inl e
                | Inr centerData \<Rightarrow>
                    let centerArray =
                          fold (\<lambda>py. fold (\<lambda>px. copyCenterPixel dat newData w blockWidth padding py px)
                                        [0..<blockWidth])
                            [0..<blockHeight] (pixelData centerData)
                    in Inr (putImageData ctx (centerData \<lparr> pixelData := centerArray \<rparr>)
                              startX startY))"

text \<open>The block origins \<open>0, blockSize, 2 * blockSize, ...\<close> below \<open>n\<close>.\<close>

definition blockStarts :: "nat \<Rightarrow> nat \<Rightarrow> nat list" where
  "blockStarts n blockSize = map (\<lambda>k. k * blockSize) [0..<(n + blockSize - 1) div blockSize]"

definition applyOptimizedSharpening :: "ctx2d \<Rightarrow> nat \<Rightarrow> nat \<Rightarrow> real \<Rightarrow> error + ctx2d" where
  "applyOptimizedSharpening ctx w h strength =
     (let blockSize = 512 in
      foldE (\<lambda>startY. foldE (\<lambda>startX c.
                processImageBlock c startX startY
                  (min blockSize (w - startX)) (min blockSize (h - startY)) strength)
              (blockStarts w blockSize))
        (blockStarts h blockSize) ctx)"

text \<open>
  \<open>enhanceBlockContrast\<close>: every colour byte \<open>v\<close> of the block becomes
  \<open>((v / 255 - 0.5) * contrast + 0.5) * 255\<close>, clamped and stored; the alpha byte is
  not touched.
\<close>

definition contrastCoefficient :: "real \<Rightarrow> real" where
  "contrastCoefficient factor = (factor + 1) * (factor + 1) / (factor * (factor + 1) + 1)"

definition contrastStep :: "real \<Rightarrow> nat \<Rightarrow> nat \<Rightarrow> nat list \<Rightarrow> nat list" where
  "contrastStep contrast i c dat =
     (let v0 = map_option (\<lambda>n. real n / 255) (element dat (i + c));
          v1 = map_option (\<lambda>v. (v - 1 / 2) * contrast + 1 / 2) v0
      in dat [i + c := toUint8Clamp (clamp255 (map_option (\<lambda>v. v * 255) v1))])"

definition enhanceBlockContrast ::
    "ctx2d \<Rightarrow> nat \<Rightarrow> nat \<Rightarrow> nat \<Rightarrow> nat \<Rightarrow> real \<Rightarrow> error + ctx2d" where
  "enhanceBlockContrast ctx startX startY blockWidth blockHeight factor =
     (case getImageData ctx startX startY blockWidth blockHeight of
        Inl e \<Rightarrow> Inl e
      | Inr img \<Rightarrow>
          let contrast = contrastCoefficient factor;
              dat = fold (\<lambda>p. fold (\<lambda>c. contrastStep contrast (4 * p) c) [0..<3])
                      [0..<(length (pixelData img) + 3) div 4] (pixelData img)
          in Inr (putImageData ctx (img \<lparr> pixelData := dat \<rparr>) startX startY))"

definition applyContrastEnhancement :: "ctx2d \<Rightarrow> nat \<Rightarrow> nat \<Rightarrow> real \<Rightarrow> error + ctx2d" where
  "applyContrastEnhancement ctx w h factor =
     (let blockSize = 1024 in
      foldE (\<lambda>startY. foldE (\<lambda>startX c.
                enhanceBlockContrast c startX startY
                  (min blockSize (w - startX)) (min blockSize (h - startY)) factor)
              (blockStarts w blockSize))
        (blockStarts h blockSize) ctx)"

definition applyOptimizedEnhancement :: "ctx2d \<Rightarrow> nat \<Rightarrow> nat \<Rightarrow> nat \<Rightarrow> error + ctx2d" where
  "applyOptimizedEnhancement ctx w h level =
     (case enhancementStrength level of
        None \<Rightarrow> Inl TypeError
      | Some strength \<Rightarrow>
          if strength = 0 then Inr ctx
          else
            case (if w * h < 1024 * 1024
                  then applyHighQualitySharpening ctx w h strength
                  else applyOptimizedSharpening ctx w h strength) of
              Inl e \<Rightarrow> Inl e
            | Inr sharpened \<Rightarrow>
                if strength > 6 / 10
                then applyContrastEnhancement sharpened w h ((strength - 6 / 10) * (5 / 10))
                else Inr sharpened)"

section \<open>Lightweight sharpening of the mobile enhancer\<close>





section \<open>The enhancement in the words of the specification\<close>

text \<open>
  A canvas is well formed when it holds four bytes for each of its pixels.
\<close>

definition wellFormed :: "ctx2d \<Rightarrow> bool" where
  "wellFormed ctx = (length (canvasData ctx) = canvasWidth ctx * canvasHeight ctx * 4)"


definition specSharpenByte :: "real \<Rightarrow> nat list \<Rightarrow> nat \<Rightarrow> nat \<Rightarrow> nat \<Rightarrow> nat" where
  "specSharpenByte s dat w h k =
     (let x = (k div 4) mod w; y = (k div 4) div w in
      if k mod 4 < 3 \<and> 1 \<le> x \<and> x + 1 < w \<and> 1 \<le> y \<and> y + 1 < h then
        toUint8Clamp (Some (max 0 (min 255
          ((1 + 4 * s) * real (dat ! k)
           - s * real (dat ! (k - 4 * w)) - s * real (dat ! (k - 4))
           - s * real (dat ! (k + 4)) - s * real (dat ! (k + 4 * w))))))
      else dat ! k)"

definition specSharpen :: "real \<Rightarrow> nat list \<Rightarrow> nat \<Rightarrow> nat \<Rightarrow> nat list" where
  "specSharpen s dat w h = map (specSharpenByte s dat w h) [0..<length dat]"

text \<open>
  The specification's contrast pass with factor \<open>f\<close>: each colour byte \<open>v\<close> becomes
  \<open>(v / 255 - 0.5) * c + 0.5\<close> with \<open>c = (f + 1)\<^sup>2 / (f * (f + 1) + 1)\<close>, scaled back to
  bytes and clamped to \<open>[0, 255]\<close>. \<open>contrastWhere\<close> applies it to the pixels selected
  by a predicate on column and row only.
\<close>

definition specContrastByte :: "real \<Rightarrow> nat \<Rightarrow> nat" where
  "specContrastByte f v =
     toUint8Clamp (Some (max 0 (min 255
       (((real v / 255 - 1 / 2) * ((f + 1)\<^sup>2 / (f * (f + 1) + 1)) + 1 / 2) * 255))))"

definition specContrast :: "real \<Rightarrow> nat list \<Rightarrow> nat list" where
  "specContrast f dat =
     map (\<lambda>k. if k mod 4 < 3 then specContrastByte f (dat ! k) else dat ! k) [0..<length dat]"

definition contrastWhere :: "(nat \<Rightarrow> nat \<Rightarrow> bool) \<Rightarrow> real \<Rightarrow> nat \<Rightarrow> nat list \<Rightarrow> nat list" where
  "contrastWhere Q f w dat =
     map (\<lambda>k. if Q ((k div 4) mod w) ((k div 4) div w) \<and> k mod 4 < 3
              then specContrastByte f (dat ! k) else dat ! k)
       [0..<length dat]"



section \<open>The host environment\<close>

text \<open>
  What the browser and the monitoring loops contribute, as parameters: whether
  \<open>checkMemoryUsage\<close> succeeds while item \<open>i\<close> is processed, the decoder (\<open>Image\<close>
  loading; \<open>None\<close> is \<open>onerror\<close>), the scaled \<open>drawImage\<close>, the JPEG encoder
  \<open>toDataURL\<close>, the memory manager's pixel cap and device data, and the snapshot the
  performance monitor holds at its \<open>k\<close>-th consultation. Sleeping between chunks has no
  counterpart in the model.
\<close>

record memoryInfo =
  isMobile :: bool
  deviceMemory :: real
  usageRatio :: "real option"

record snapshot =
  memory :: "memoryInfo option"
  fps :: "int option"
  errorCounts :: "nat list"

record host =
  memoryOkAt :: "nat \<Rightarrow> bool"
  loadImage :: "string \<Rightarrow> ctx2d option"
  drawScaled :: "ctx2d \<Rightarrow> nat \<Rightarrow> nat \<Rightarrow> ctx2d"
  toDataURL :: "ctx2d \<Rightarrow> real \<Rightarrow> string"
  managerMaxImageSize :: nat
  deviceInfo :: "memoryInfo option"
  monitorAt :: "nat \<Rightarrow> snapshot"
  webglAvailable :: bool
  mobileSettings :: settings

section \<open>Performance monitor (\<open>PerformanceMonitor\<close>)\<close>

text \<open>
  \<open>shouldPauseProcessing\<close>: the reason when processing should pause. A missing memory
  manager, usage ratio or frame rate makes its comparison false.
\<close>

definition shouldPauseProcessing :: "snapshot \<Rightarrow> string option" where
  "shouldPauseProcessing snap =
     (if (case memory snap of
            None \<Rightarrow> False
          | Some info \<Rightarrow> (case usageRatio info of None \<Rightarrow> False | Some r \<Rightarrow> r > 9 / 10))
      then Some ''memory_critical''
      else if (case fps snap of None \<Rightarrow> False | Some f \<Rightarrow> f < 10)
      then Some ''fps_critical''
      else if sum_list (errorCounts snap) > 5
      then Some ''errors_critical''
      else None)"



record optimization =
  maxConcurrentProcessing :: nat
  recommendedEnhancementLevel :: nat
  shouldResizeImages :: bool
  batchSize :: nat

definition optimizeForDevice :: "memoryInfo option \<Rightarrow> optimization" where
  "optimizeForDevice info =
     (case info of
        None \<Rightarrow>
          \<lparr> maxConcurrentProcessing = 3, recommendedEnhancementLevel = 3,
            shouldResizeImages = False, batchSize = 5 \<rparr>
      | Some m \<Rightarrow>
          if isMobile m then
            (if deviceMemory m \<le> 2 then
               \<lparr> maxConcurrentProcessing = 1, recommendedEnhancementLevel = 0,
                 shouldResizeImages = True, batchSize = 1 \<rparr>
             else if deviceMemory m \<le> 4 then
               \<lparr> maxConcurrentProcessing = 1, recommendedEnhancementLevel = 1,
                 shouldResizeImages = False, batchSize = 2 \<rparr>
             else
               \<lparr> maxConcurrentProcessing = 2, recommendedEnhancementLevel = 2,
                 shouldResizeImages = False, batchSize = 3 \<rparr>)
          else
            (if deviceMemory m \<le> 4 then
               \<lparr> maxConcurrentProcessing = 2, recommendedEnhancementLevel = 2,
                 shouldResizeImages = False, batchSize = 3 \<rparr>
             else
               \<lparr> maxConcurrentProcessing = 3, recommendedEnhancementLevel = 3,
                 shouldResizeImages = False, batchSize = 5 \<rparr>))"

section \<open>Single-image pipeline and batches\<close>

text \<open>\<open>MemoryManager.getOptimalImageSize\<close>: width, height, \<open>needsResize\<close>.\<close>

definition getOptimalImageSize :: "nat \<Rightarrow> nat \<Rightarrow> nat \<Rightarrow> nat \<times> nat \<times> bool" where
  "getOptimalImageSize maxSize originalWidth originalHeight =
     (let pixels = originalWidth * originalHeight in
      if pixels \<le> maxSize then (originalWidth, originalHeight, False)
      else let scale = sqrt (real maxSize / real pixels)
           in (nat \<lfloor>real originalWidth * scale\<rfloor>, nat \<lfloor>real originalHeight * scale\<rfloor>, True))"

definition resizeImageSafely :: "host \<Rightarrow> string \<Rightarrow> nat \<Rightarrow> nat \<Rightarrow> error + string" where
  "resizeImageSafely hst url targetWidth targetHeight =
     (case loadImage hst url of
        None \<Rightarrow> Inl ImageLoadFailed
      | Some img \<Rightarrow> Inr (toDataURL hst (drawScaled hst img targetWidth targetHeight) (9 / 10)))"

text \<open>
  \<open>performEnhancement\<close>: decode, draw on a canvas of the image's size, filter, encode
  at quality 0.92. Any exception of the filter is rethrown as "enhancement failed".
\<close>

definition performEnhancement :: "host \<Rightarrow> string \<Rightarrow> nat \<Rightarrow> error + string" where
  "performEnhancement hst url level =
     (case loadImage hst url of
        None \<Rightarrow> Inl ImageLoadFailed
      | Some img \<Rightarrow>
          (case applyOptimizedEnhancement img (canvasWidth img) (canvasHeight img) level of
             Inl e \<Rightarrow> Inl EnhancementFailed
           | Inr out \<Rightarrow> Inr (toDataURL hst out (92 / 100))))"

definition processImageSafely ::
    "host \<Rightarrow> nat \<Rightarrow> string \<Rightarrow> (string \<Rightarrow> error + string) \<Rightarrow> error + string" where
  "processImageSafely hst i url processor =
     (if \<not> memoryOkAt hst i then Inl OutOfMemory
      else case loadImage hst url of
             None \<Rightarrow> Inl ImageLoadFailed
           | Some img \<Rightarrow>
               (case getOptimalImageSize (managerMaxImageSize hst)
                       (canvasWidth img) (canvasHeight img) of
                  (optimalWidth, optimalHeight, needsResize) \<Rightarrow>
                    (case (if needsResize
                           then resizeImageSafely hst url optimalWidth optimalHeight
                           else Inr url) of
                       Inl e \<Rightarrow> Inl e
                     | Inr processImageData \<Rightarrow> processor processImageData)))"

text \<open>\<open>enhanceImageSafely\<close>; \<open>i\<close> is the position of the item in time (see \<open>memoryOkAt\<close>).\<close>

definition enhanceImageSafely :: "host \<Rightarrow> nat \<Rightarrow> string \<Rightarrow> nat \<Rightarrow> error + string" where
  "enhanceImageSafely hst i imageDataUrl level =
     (if level = 0 then Inr imageDataUrl
      else processImageSafely hst i imageDataUrl (\<lambda>d. performEnhancement hst d level))"

text \<open>
  The body of the \<open>batch.map\<close> callback of \<open>enhanceImagesBatch\<close>: the progress callback
  (absent, or a function that may throw) and the enhancement run inside \<open>try\<close>; the
  \<open>catch\<close> returns the file itself.
\<close>

type_synonym progressCallback = "(nat \<Rightarrow> nat \<Rightarrow> string \<Rightarrow> bool) option"

definition callbackThrows :: "progressCallback \<Rightarrow> nat \<Rightarrow> nat \<Rightarrow> string \<Rightarrow> bool" where
  "callbackThrows cb i totalFiles nm = (case cb of None \<Rightarrow> False | Some f \<Rightarrow> \<not> f i totalFiles nm)"

definition markEnhanced :: "fileInfo \<Rightarrow> string \<Rightarrow> nat \<Rightarrow> fileInfo" where
  "markEnhanced file d level =
     file \<lparr> imageData := d, enhanced := True, enhancementLevel := Some level \<rparr>"

definition enhanceBatchItem ::
    "host \<Rightarrow> progressCallback \<Rightarrow> nat \<Rightarrow> nat \<Rightarrow> nat \<Rightarrow> fileInfo \<Rightarrow> fileInfo" where
  "enhanceBatchItem hst cb level totalFiles globalIndex file =
     (if callbackThrows cb globalIndex totalFiles (name file) then file
      else case enhanceImageSafely hst globalIndex (imageData file) level of
             Inl e \<Rightarrow> file
           | Inr enhancedImageData \<Rightarrow> markEnhanced file enhancedImageData level)"

text \<open>
  The chunk loop of \<open>enhanceImagesBatch\<close>: \<open>i\<close> advances by \<open>batchSize\<close>, \<open>k\<close> counts the
  chunks done. After each chunk the monitor is consulted, and a pause is thrown as an
  \<open>Error\<close>. The result is \<open>None\<close> when the loop does not end.
\<close>

partial_function (option) batchLoop ::
    "host \<Rightarrow> progressCallback \<Rightarrow> nat \<Rightarrow> fileInfo list \<Rightarrow> nat \<Rightarrow> nat \<Rightarrow> nat \<Rightarrow>
     fileInfo list \<Rightarrow> (error + fileInfo list) option" where
  "batchLoop hst cb level files bSize i k enhancedFiles =
     (if i < length files then
        (let batch = take bSize (drop i files);
             batchResults =
               map (\<lambda>(file, index). enhanceBatchItem hst cb level (length files) (i + index) file)
                 (zip batch [0..<length batch])
         in case shouldPauseProcessing (monitorAt hst k) of
              Some reason \<Rightarrow> Some (Inl (ProcessingPaused reason))
            | None \<Rightarrow>
                batchLoop hst cb level files bSize (i + bSize) (k + 1)
                  (enhancedFiles @ batchResults))
      else Some (Inr enhancedFiles))"

definition enhanceImagesBatch ::
    "host \<Rightarrow> fileInfo list \<Rightarrow> nat \<Rightarrow> progressCallback \<Rightarrow> (error + fileInfo list) option" where
  "enhanceImagesBatch hst files level cb =
     (if level = 0 then Some (Inr files)
      else batchLoop hst cb level files (batchSize (optimizeForDevice (deviceInfo hst))) 0 0 [])"












text \<open>
  Small opaque canvases: 3x3 with a single grey pixel in the middle of black ones,
  2x2 of one colour, and 3x3 with a middle pixel slightly brighter than its border.
\<close>

definition exampleCanvas :: ctx2d where
  "exampleCanvas =
     \<lparr> canvasWidth = 3, canvasHeight = 3,
       canvasData =
         [0, 0, 0, 255,   0, 0, 0, 255,         0, 0, 0, 255,
          0, 0, 0, 255,   100, 100, 100, 255,   0, 0, 0, 255,
          0, 0, 0, 255,   0, 0, 0, 255,         0, 0, 0, 255] \<rparr>"





section \<open>Theorems\<close>

subsection \<open>Resource budget\<close>

text \<open>
  C7, as amended. For the low capability tier \<open>getOptimizationSettings\<close> yields a batch
  size of 1, a delay of 500 ms and a quality reduction of 0.2, and a pixel cap of
  \<open>1024 * 768 = 786432\<close> pixels (not 1048576).
\<close>

theorem C7_low_tier_budget:
  "maxImageSize (getOptimizationSettings Low) = 786432 \<and>
   maxBatchSize (getOptimizationSettings Low) = 1 \<and>
   processingDelay (getOptimizationSettings Low) = 500 \<and>
   qualityReduction (getOptimizationSettings Low) = 2 / 10"
  by (simp add: defaultSettings_def)

text \<open>
  C7, as stated, fails: the pixel cap of the low tier is not 1048576.
\<close>

theorem C7_low_tier_pixel_cap_counterexample:
  "maxImageSize (getOptimizationSettings Low) \<noteq> 1048576"
  by (simp add: defaultSettings_def)

text \<open>
  C8. Starting from the tier's settings, the battery-level override followed by the
  charging override gives: for tier low at level 0.1, not charging, a delay of at least
  1000 ms and batch size 1; for tier high at level 0.9, charging, a delay of exactly
  100 ms and a batch size in {2, 3}. Charging subtracts 100 ms with a floor of 100 ms,
  discharging adds 100 ms.
\<close>

theorem C8_battery_overrides:
  "processingDelay (optimizationSettings
      (initialBatteryOptimization (1 / 10) False (newEnhancerMobile Low fh))) \<ge> 1000 \<and>
   maxBatchSize (optimizationSettings
      (initialBatteryOptimization (1 / 10) False (newEnhancerMobile Low fh))) = 1 \<and>
   processingDelay (optimizationSettings
      (initialBatteryOptimization (9 / 10) True (newEnhancerMobile High fh))) = 100 \<and>
   maxBatchSize (optimizationSettings
      (initialBatteryOptimization (9 / 10) True (newEnhancerMobile High fh))) \<in> {2, 3} \<and>
   processingDelay (optimizationSettings (adjustForChargingState True m)) =
      max 100 (processingDelay (optimizationSettings m) - 100) \<and>
   processingDelay (optimizationSettings (adjustForChargingState False m)) =
      processingDelay (optimizationSettings m) + 100"
  by (simp add: initialBatteryOptimization_def newEnhancerMobile_def
      adjustForBatteryLevel_def adjustForChargingState_def showWarning_def)

subsection \<open>Order detection\<close>


















subsection \<open>Batches\<close>


















text \<open>
  C2. At level 0 \<open>enhanceImageSafely\<close> returns the payload it was given and
  \<open>enhanceImagesBatch\<close> returns the list it was given: nothing is decoded, encoded or
  copied.
\<close>

theorem C2_level_zero_identity:
  "enhanceImageSafely hst i imageDataUrl 0 = Inr imageDataUrl \<and>
   enhanceImagesBatch hst files 0 cb = Some (Inr files)"
  by (simp add: enhanceImageSafely_def enhanceImagesBatch_def)






subsection \<open>The enhancement against its specification\<close>

subsubsection \<open>Folds of list updates\<close>

lemma fold_nested:
  "fold (\<lambda>y. fold (f y) xs) ys = fold (\<lambda>(y, x). f y x) (List.product ys xs)"
proof (induction ys)
  case Nil
  show ?case by simp
next
  case (Cons y ys)
  have "fold (\<lambda>(y, x). f y x) (map (Pair y) xs) = fold (f y) xs"
    by (simp add: fold_map comp_def)
  then show ?case by (simp add: Cons.IH)
qed

lemma fold_update_length:
  "length (fold (\<lambda>a nd. nd[pos a := val a]) as nd) = length nd"
  by (induction as arbitrary: nd) simp_all

lemma fold_update_miss:
  "k \<notin> pos ` set as \<Longrightarrow> fold (\<lambda>a nd. nd[pos a := val a]) as nd ! k = nd ! k"
  by (induction as arbitrary: nd) simp_all

lemma fold_update_hit:
  "distinct (map pos as) \<Longrightarrow> a \<in> set as \<Longrightarrow> pos a < length nd \<Longrightarrow>
     fold (\<lambda>a nd. nd[pos a := val a]) as nd ! pos a = val a"
proof (induction as arbitrary: nd)
  case Nil
  then show ?case by simp
next
  case (Cons b bs)
  show ?case
  proof (cases "a = b")
    case True
    with Cons.prems have "pos a \<notin> pos ` set bs" by auto
    then show ?thesis using True Cons.prems(3) by (simp add: fold_update_miss)
  next
    case False
    with Cons.prems show ?thesis by (simp add: Cons.IH)
  qed
qed

subsubsection \<open>Byte positions\<close>

lemma pos_decompose:
  fixes x y w c :: nat
  assumes "x < w" "c < 4"
  shows "((y * w + x) * 4 + c) mod 4 = c"
    and "(((y * w + x) * 4 + c) div 4) mod w = x"
    and "(((y * w + x) * 4 + c) div 4) div w = y"
proof -
  have d: "\<And>a::nat. (a * 4 + c) div 4 = a" "\<And>a::nat. (a * 4 + c) mod 4 = c"
    using assms(2) by simp_all
  have e: "(y * w + x) mod w = x" "(y * w + x) div w = y"
    using assms(1) by simp_all
  show "((y * w + x) * 4 + c) mod 4 = c" by (rule d)
  show "(((y * w + x) * 4 + c) div 4) mod w = x" unfolding d by (rule e)
  show "(((y * w + x) * 4 + c) div 4) div w = y" unfolding d by (rule e)
qed

lemma pos_compose:
  fixes k w :: nat
  shows "(((k div 4) div w) * w + (k div 4) mod w) * 4 + k mod 4 = k"
  by simp

lemma pos_bound:
  fixes x y w h c :: nat
  assumes "x < w" "y < h" "c < 4"
  shows "(y * w + x) * 4 + c < w * h * 4"
proof -
  have "y * w + x < y * w + w" using assms(1) by simp
  also have "\<dots> = (y + 1) * w" by simp
  also have "\<dots> \<le> h * w" using assms(2) by (intro mult_le_mono1) simp
  finally have "y * w + x < w * h" by (simp add: mult.commute)
  then show ?thesis using assms(3) by simp
qed


subsubsection \<open>The full-frame sharpening pass\<close>

lemma convolve_closed:
  assumes len: "length dat = w * h * 4"
    and x: "1 \<le> x" "x + 1 < w" and y: "1 \<le> y" "y + 1 < h" and c: "c < 3"
  shows "convolve dat w (sharpenKernel s) y x c =
           Some ((1 + 4 * s) * real (dat ! ((y * w + x) * 4 + c))
                 - s * real (dat ! ((y * w + x) * 4 + c - 4 * w))
                 - s * real (dat ! ((y * w + x) * 4 + c - 4))
                 - s * real (dat ! ((y * w + x) * 4 + c + 4))
                 - s * real (dat ! ((y * w + x) * 4 + c + 4 * w)))"
proof -
  from x y obtain x' y' where x': "x = Suc x'" and y': "y = Suc y'"
    by (metis One_nat_def Suc_le_D)
  define P where "P a b = ((y' + a) * w + (x' + b)) * 4 + c" for a b
  have idx: "\<And>ky kx. ((y + ky - 1) * w + (x + kx - 1)) * 4 + c = P ky kx"
    by (simp add: P_def x' y')
  have el: "element dat (P a b) = Some (dat ! P a b)" if "a < 3" "b < 3" for a b
  proof -
    have "x' + b < w" "y' + a < h" "c < 4"
      using that x y c by (simp_all add: x' y')
    then have "P a b < w * h * 4"
      unfolding P_def by (rule pos_bound)
    then show ?thesis by (simp add: element_def len)
  qed
  have conv: "convolve dat w (sharpenKernel s) y x c =
      Some ((1 + 4 * s) * real (dat ! P 1 1) - s * real (dat ! P 0 1) - s * real (dat ! P 1 0)
            - s * real (dat ! P 1 2) - s * real (dat ! P 2 1))"
    unfolding convolve_def idx
    by (simp add: el sharpenKernel_def addNumber_def scaleElement_def algebra_simps)
  have k: "P 1 1 = (y * w + x) * 4 + c"
    "P 0 1 = (y * w + x) * 4 + c - 4 * w"
    "P 1 0 = (y * w + x) * 4 + c - 4"
    "P 1 2 = (y * w + x) * 4 + c + 4"
    "P 2 1 = (y * w + x) * 4 + c + 4 * w"
    by (simp_all add: P_def x' y' algebra_simps)
  show ?thesis unfolding conv k ..
qed

lemma sharpenInterior_flat:
  "sharpenInterior dat w h kern =
     fold (\<lambda>a nd. nd[(fst (fst a) * w + snd (fst a)) * 4 + snd a :=
                      toUint8Clamp (clamp255 (convolve dat w kern (fst (fst a)) (snd (fst a)) (snd a)))])
       (List.product (List.product [1..<h - 1] [1..<w - 1]) [0..<3])"
proof -
  have "sharpenInterior dat w h kern =
      fold (\<lambda>(y, x). fold (\<lambda>c. sharpenStep dat w kern y x c) [0..<3])
        (List.product [1..<h - 1] [1..<w - 1])"
    unfolding sharpenInterior_def
    by (rule ext) (simp add: fold_nested [of "\<lambda>y x. fold (\<lambda>c. sharpenStep dat w kern y x c) [0..<3]"])
  also have "\<dots> = fold (\<lambda>p. fold (\<lambda>c. sharpenStep dat w kern (fst p) (snd p) c) [0..<3])
        (List.product [1..<h - 1] [1..<w - 1])"
    unfolding case_prod_beta ..
  also have "\<dots> = fold (\<lambda>(p, c). sharpenStep dat w kern (fst p) (snd p) c)
        (List.product (List.product [1..<h - 1] [1..<w - 1]) [0..<3])"
    by (rule fold_nested)
  also have "\<dots> = fold (\<lambda>a nd. nd[(fst (fst a) * w + snd (fst a)) * 4 + snd a :=
                      toUint8Clamp (clamp255 (convolve dat w kern (fst (fst a)) (snd (fst a)) (snd a)))])
       (List.product (List.product [1..<h - 1] [1..<w - 1]) [0..<3])"
  proof -
    have "(\<lambda>(p, c). sharpenStep dat w kern (fst p) (snd p) c) =
          (\<lambda>a nd. nd[(fst (fst a) * w + snd (fst a)) * 4 + snd a :=
                      toUint8Clamp (clamp255 (convolve dat w kern (fst (fst a)) (snd (fst a)) (snd a)))])"
      by (intro ext) (simp only: case_prod_beta sharpenStep_def)
    then show ?thesis by (simp only:)
  qed
  finally show ?thesis .
qed

lemma interior_positions_distinct:
  "distinct (map (\<lambda>a. (fst (fst a) * w + snd (fst a)) * 4 + snd a)
     (List.product (List.product [1..<h - 1] [1..<w - 1]) [0..<3]))"
proof -
  have "inj_on (\<lambda>a. (fst (fst a) * w + snd (fst a)) * 4 + snd a)
          (set (List.product (List.product [1..<h - 1] [1..<w - 1]) [0..<3]))"
  proof (rule inj_onI)
    fix a b :: "(nat \<times> nat) \<times> nat"
    assume a: "a \<in> set (List.product (List.product [1..<h - 1] [1..<w - 1]) [0..<3])"
      and b: "b \<in> set (List.product (List.product [1..<h - 1] [1..<w - 1]) [0..<3])"
      and eq: "(fst (fst a) * w + snd (fst a)) * 4 + snd a = (fst (fst b) * w + snd (fst b)) * 4 + snd b"
    from a have ra: "snd (fst a) < w" "snd a < 4" by auto
    from b have rb: "snd (fst b) < w" "snd b < 4" by auto
    have "snd a = snd b"
      using pos_decompose(1) [OF ra, of "fst (fst a)"] pos_decompose(1) [OF rb, of "fst (fst b)"] eq
      by simp
    moreover have "snd (fst a) = snd (fst b)"
      using pos_decompose(2) [OF ra, of "fst (fst a)"] pos_decompose(2) [OF rb, of "fst (fst b)"] eq
      by simp
    moreover have "fst (fst a) = fst (fst b)"
      using pos_decompose(3) [OF ra, of "fst (fst a)"] pos_decompose(3) [OF rb, of "fst (fst b)"] eq
      by simp
    ultimately show "a = b" by (simp add: prod_eq_iff)
  qed
  then show ?thesis
    by (simp add: distinct_map distinct_product)
qed

lemma sharpenInterior_spec:
  assumes len: "length dat = w * h * 4"
  shows "sharpenInterior dat w h (sharpenKernel s) dat = specSharpen s dat w h"
proof (rule nth_equalityI)
  show "length (sharpenInterior dat w h (sharpenKernel s) dat) = length (specSharpen s dat w h)"
    by (simp add: sharpenInterior_flat fold_update_length specSharpen_def)
next
  fix k
  assume "k < length (sharpenInterior dat w h (sharpenKernel s) dat)"
  then have k: "k < length dat"
    by (simp add: sharpenInterior_flat fold_update_length)
  define x y c where "x = (k div 4) mod w" and "y = (k div 4) div w" and "c = k mod 4"
  let ?pos = "\<lambda>a :: (nat \<times> nat) \<times> nat. (fst (fst a) * w + snd (fst a)) * 4 + snd a"
  let ?as = "List.product (List.product [1..<h - 1] [1..<w - 1]) [0..<3]"
  have kpos: "k = (y * w + x) * 4 + c"
    unfolding x_def y_def c_def by (rule pos_compose [symmetric])
  show "sharpenInterior dat w h (sharpenKernel s) dat ! k = specSharpen s dat w h ! k"
  proof (cases "c < 3 \<and> 1 \<le> x \<and> x + 1 < w \<and> 1 \<le> y \<and> y + 1 < h")
    case True
    then have mem: "((y, x), c) \<in> set ?as" by auto
    have "fold (\<lambda>a nd. nd[?pos a :=
              toUint8Clamp (clamp255 (convolve dat w (sharpenKernel s) (fst (fst a)) (snd (fst a)) (snd a)))])
            ?as dat ! ?pos ((y, x), c) =
          toUint8Clamp (clamp255 (convolve dat w (sharpenKernel s) y x c))"
      using fold_update_hit [OF interior_positions_distinct mem, where nd = dat and val =
          "\<lambda>a. toUint8Clamp (clamp255 (convolve dat w (sharpenKernel s) (fst (fst a)) (snd (fst a)) (snd a)))"]
        k kpos by simp
    then have "sharpenInterior dat w h (sharpenKernel s) dat ! k =
          toUint8Clamp (clamp255 (convolve dat w (sharpenKernel s) y x c))"
      by (simp add: sharpenInterior_flat kpos)
    also have "\<dots> = specSharpenByte s dat w h k"
    proof -
      have cc: "convolve dat w (sharpenKernel s) y x c =
           Some ((1 + 4 * s) * real (dat ! k)
                 - s * real (dat ! (k - 4 * w)) - s * real (dat ! (k - 4))
                 - s * real (dat ! (k + 4)) - s * real (dat ! (k + 4 * w)))"
        using convolve_closed [OF len, of x y c s] True unfolding kpos [symmetric] by simp
      have sb: "specSharpenByte s dat w h k =
          toUint8Clamp (Some (max 0 (min 255 ((1 + 4 * s) * real (dat ! k)
                 - s * real (dat ! (k - 4 * w)) - s * real (dat ! (k - 4))
                 - s * real (dat ! (k + 4)) - s * real (dat ! (k + 4 * w))))))"
        using True by (simp add: specSharpenByte_def x_def y_def c_def)
      show ?thesis unfolding cc sb clamp255_def by simp
    qed
    finally show ?thesis using k by (simp add: specSharpen_def)
  next
    case False
    have "k \<notin> ?pos ` set ?as"
    proof
      assume "k \<in> ?pos ` set ?as"
      then obtain a where a: "a \<in> set ?as" and ka: "k = ?pos a" by auto
      from a have r: "snd (fst a) < w" "snd a < 4" by auto
      have "c = snd a" "x = snd (fst a)" "y = fst (fst a)"
        unfolding c_def x_def y_def ka
        using pos_decompose [OF r, of "fst (fst a)"] by simp_all
      with a False show False by auto
    qed
    then have "sharpenInterior dat w h (sharpenKernel s) dat ! k = dat ! k"
      by (simp add: sharpenInterior_flat fold_update_miss)
    also have "\<dots> = specSharpenByte s dat w h k"
      using False by (auto simp: specSharpenByte_def Let_def x_def y_def c_def)
    finally show ?thesis using k by (simp add: specSharpen_def)
  qed
qed


subsubsection \<open>Reading and writing rectangles\<close>

lemma getImageData_inside:
  assumes wf: "wellFormed ctx" and pos: "0 < sw" "0 < sh"
    and inside: "sx + sw \<le> canvasWidth ctx" "sy + sh \<le> canvasHeight ctx"
  shows "getImageData ctx sx sy sw sh =
           Inr \<lparr> bufWidth = sw, bufHeight = sh,
                 pixelData =
                   map (\<lambda>m. canvasData ctx !
                          (((sy + (m div 4) div sw) * canvasWidth ctx + (sx + (m div 4) mod sw)) * 4
                           + m mod 4))
                     [0..<sw * sh * 4] \<rparr>"
proof -
  have "map (\<lambda>m. canvasByte ctx (sx + (m div 4) mod sw) (sy + (m div 4) div sw) (m mod 4))
          [0..<sw * sh * 4] =
        map (\<lambda>m. canvasData ctx !
                          (((sy + (m div 4) div sw) * canvasWidth ctx + (sx + (m div 4) mod sw)) * 4
                           + m mod 4))
          [0..<sw * sh * 4]"
  proof (rule map_cong [OF refl])
    fix m assume "m \<in> set [0..<sw * sh * 4]"
    then have "m div 4 < sh * sw" by (simp add: mult.commute less_mult_imp_div_less)
    then have "(m div 4) div sw < sh" by (rule less_mult_imp_div_less)
    moreover have "(m div 4) mod sw < sw" using pos(1) by simp
    ultimately have "sx + (m div 4) mod sw < canvasWidth ctx" "sy + (m div 4) div sw < canvasHeight ctx"
      using inside by simp_all
    then show "canvasByte ctx (sx + (m div 4) mod sw) (sy + (m div 4) div sw) (m mod 4) =
      canvasData ctx !
        (((sy + (m div 4) div sw) * canvasWidth ctx + (sx + (m div 4) mod sw)) * 4 + m mod 4)"
      by (simp only: canvasByte_def if_True simp_thms)
  qed
  then show ?thesis
    using pos by (simp only: getImageData_def) simp
qed

lemma getImageData_full:
  assumes wf: "wellFormed ctx" and pos: "0 < canvasWidth ctx" "0 < canvasHeight ctx"
  shows "getImageData ctx 0 0 (canvasWidth ctx) (canvasHeight ctx) =
           Inr \<lparr> bufWidth = canvasWidth ctx, bufHeight = canvasHeight ctx,
                 pixelData = canvasData ctx \<rparr>"
proof -
  have "map (\<lambda>m. canvasData ctx !
          (((0 + (m div 4) div canvasWidth ctx) * canvasWidth ctx + (0 + (m div 4) mod canvasWidth ctx)) * 4
           + m mod 4)) [0..<canvasWidth ctx * canvasHeight ctx * 4] =
        map (\<lambda>m. canvasData ctx ! m) [0..<length (canvasData ctx)]"
    using wf by (simp only: add_0 pos_compose wellFormed_def)
  then show ?thesis
    using getImageData_inside [OF wf pos, of 0 0] by (simp add: map_nth)
qed

lemma putImageData_full:
  assumes wf: "wellFormed ctx" and len: "length nd = length (canvasData ctx)"
  shows "putImageData ctx \<lparr> bufWidth = canvasWidth ctx, bufHeight = canvasHeight ctx,
                           pixelData = nd \<rparr> 0 0 = ctx \<lparr> canvasData := nd \<rparr>"
proof -
  let ?w = "canvasWidth ctx" and ?h = "canvasHeight ctx"
  have "map (\<lambda>k. let px = (k div 4) mod ?w; py = (k div 4) div ?w
                in if 0 \<le> px \<and> px < 0 + ?w \<and> 0 \<le> py \<and> py < 0 + ?h
                   then nd ! (((py - 0) * ?w + (px - 0)) * 4 + k mod 4)
                   else canvasData ctx ! k)
           [0..<length (canvasData ctx)] = map (\<lambda>k. nd ! k) [0..<length nd]"
    unfolding len
  proof (rule map_cong [OF refl])
    fix k assume "k \<in> set [0..<length (canvasData ctx)]"
    then have k: "k < ?w * ?h * 4" using wf by (simp add: wellFormed_def)
    then have w: "0 < ?w" by (cases "?w = 0") simp_all
    from k have "k div 4 < ?h * ?w" by (simp add: mult.commute less_mult_imp_div_less)
    then have "(k div 4) div ?w < ?h" by (rule less_mult_imp_div_less)
    moreover have "(k div 4) mod ?w < ?w" using w by simp
    ultimately show "(let px = (k div 4) mod ?w; py = (k div 4) div ?w
                in if 0 \<le> px \<and> px < 0 + ?w \<and> 0 \<le> py \<and> py < 0 + ?h
                   then nd ! (((py - 0) * ?w + (px - 0)) * 4 + k mod 4)
                   else canvasData ctx ! k) = nd ! k"
      by (simp only: Let_def add_0 diff_zero le0 simp_thms if_True pos_compose)
  qed
  then show ?thesis
    by (simp add: putImageData_def map_nth Let_def cong: if_cong)
qed

lemma applyHighQualitySharpening_spec:
  assumes wf: "wellFormed ctx" and pos: "0 < canvasWidth ctx" "0 < canvasHeight ctx"
  shows "applyHighQualitySharpening ctx (canvasWidth ctx) (canvasHeight ctx) s =
           Inr (ctx \<lparr> canvasData :=
                  specSharpen s (canvasData ctx) (canvasWidth ctx) (canvasHeight ctx) \<rparr>)"
proof -
  have len: "length (canvasData ctx) = canvasWidth ctx * canvasHeight ctx * 4"
    using wf by (simp add: wellFormed_def)
  have l2: "length (specSharpen s (canvasData ctx) (canvasWidth ctx) (canvasHeight ctx)) =
      length (canvasData ctx)"
    by (simp add: specSharpen_def)
  show ?thesis
    unfolding applyHighQualitySharpening_def getImageData_full [OF wf pos]
    by (simp add: Let_def sharpenInterior_spec [OF len] putImageData_full [OF wf l2])
qed


subsubsection \<open>The contrast pass on one block\<close>

lemma fold_modify_length:
  "length (fold (\<lambda>a nd. nd[pos a := g (nd ! pos a)]) as nd) = length nd"
  by (induction as arbitrary: nd) simp_all

lemma fold_modify_nth:
  "distinct (map pos as) \<Longrightarrow> k < length nd \<Longrightarrow>
     fold (\<lambda>a nd. nd[pos a := g (nd ! pos a)]) as nd ! k =
       (if k \<in> pos ` set as then g (nd ! k) else nd ! k)"
proof (induction as arbitrary: nd)
  case Nil
  then show ?case by simp
next
  case (Cons b bs)
  let ?nd = "nd[pos b := g (nd ! pos b)]"
  have ih: "fold (\<lambda>a nd. nd[pos a := g (nd ! pos a)]) bs ?nd ! k =
       (if k \<in> pos ` set bs then g (?nd ! k) else ?nd ! k)"
    using Cons.prems by (intro Cons.IH) simp_all
  show ?case
  proof (cases "k \<in> pos ` set bs")
    case True
    moreover from Cons.prems(1) have "pos b \<notin> pos ` set bs" by simp
    ultimately have "k \<noteq> pos b" by blast
    with True ih show ?thesis by simp
  next
    case False
    with ih Cons.prems(2) show ?thesis by (cases "k = pos b") simp_all
  qed
qed

lemma contrastStep_update:
  "contrastStep contrast i c dat =
     dat[i + c := toUint8Clamp (Some (max 0 (min 255
                    (((real (dat ! (i + c)) / 255 - 1 / 2) * contrast + 1 / 2) * 255))))]"
proof (cases "i + c < length dat")
  case True
  then show ?thesis
    by (simp add: contrastStep_def Let_def element_def clamp255_def)
next
  case False
  then show ?thesis
    by (simp add: contrastStep_def Let_def list_update_beyond)
qed

lemma contrastCoefficient_spec:
  "toUint8Clamp (Some (max 0 (min 255
      (((real v / 255 - 1 / 2) * contrastCoefficient f + 1 / 2) * 255)))) = specContrastByte f v"
  by (simp add: contrastCoefficient_def specContrastByte_def power2_eq_square)

lemma contrast_positions_distinct:
  "distinct (map (\<lambda>a. 4 * fst a + snd a) (List.product [0..<n] [0..<3]))"
proof -
  have "inj_on (\<lambda>a. 4 * fst a + snd a) (set (List.product [0..<n] [0..<3]))"
  proof (rule inj_onI)
    fix a b :: "nat \<times> nat"
    assume "a \<in> set (List.product [0..<n] [0..<3])" "b \<in> set (List.product [0..<n] [0..<3])"
      and eq: "4 * fst a + snd a = 4 * fst b + snd b"
    then have "snd a < 4" "snd b < 4" by auto
    with eq have "fst a = fst b" "snd a = snd b" by presburger+
    then show "a = b" by (simp add: prod_eq_iff)
  qed
  then show ?thesis by (simp add: distinct_map distinct_product)
qed

lemma contrast_loop:
  assumes len: "length dat = n * 4"
  shows "fold (\<lambda>p. fold (\<lambda>c. contrastStep (contrastCoefficient f) (4 * p) c) [0..<3])
           [0..<(length dat + 3) div 4] dat = specContrast f dat"
proof -
  let ?g = "\<lambda>v. specContrastByte f v"
  let ?step = "\<lambda>a nd. nd[4 * fst a + snd a := ?g (nd ! (4 * fst a + snd a))]"
  have n: "(length dat + 3) div 4 = n" by (simp add: len)
  have "fold (\<lambda>p. fold (\<lambda>c. contrastStep (contrastCoefficient f) (4 * p) c) [0..<3]) [0..<n] =
        fold (\<lambda>(p, c). contrastStep (contrastCoefficient f) (4 * p) c) (List.product [0..<n] [0..<3])"
    by (rule fold_nested)
  also have "(\<lambda>(p, c). contrastStep (contrastCoefficient f) (4 * p) c) = ?step"
    by (intro ext) (simp only: case_prod_beta contrastStep_update contrastCoefficient_spec)
  finally have flat: "fold (\<lambda>p. fold (\<lambda>c. contrastStep (contrastCoefficient f) (4 * p) c) [0..<3])
       [0..<(length dat + 3) div 4] dat = fold ?step (List.product [0..<n] [0..<3]) dat"
    by (simp only: n)
  have fl: "length (fold ?step (List.product [0..<n] [0..<3]) dat) = length dat"
    by (rule fold_modify_length [where pos = "\<lambda>a. 4 * fst a + snd a" and g = ?g])
  have "fold ?step (List.product [0..<n] [0..<3]) dat = specContrast f dat"
  proof (rule nth_equalityI)
    show "length (fold ?step (List.product [0..<n] [0..<3]) dat) = length (specContrast f dat)"
      by (simp add: fl specContrast_def)
  next
    fix k assume "k < length (fold ?step (List.product [0..<n] [0..<3]) dat)"
    then have k: "k < length dat" by (simp add: fl)
    have img: "k \<in> (\<lambda>a. 4 * fst a + snd a) ` set (List.product [0..<n] [0..<3]) \<longleftrightarrow> k mod 4 < 3"
    proof
      assume "k \<in> (\<lambda>a. 4 * fst a + snd a) ` set (List.product [0..<n] [0..<3])"
      then obtain p c where "k = 4 * p + c" "c < 3" by auto
      then show "k mod 4 < 3" by simp
    next
      assume c: "k mod 4 < 3"
      have "k div 4 < n" using k len by simp
      with c have "(k div 4, k mod 4) \<in> set (List.product [0..<n] [0..<3])" by simp
      moreover have "k = 4 * fst (k div 4, k mod 4) + snd (k div 4, k mod 4)" by simp
      ultimately show "k \<in> (\<lambda>a. 4 * fst a + snd a) ` set (List.product [0..<n] [0..<3])"
        by (rule rev_image_eqI)
    qed
    show "fold ?step (List.product [0..<n] [0..<3]) dat ! k = specContrast f dat ! k"
      using fold_modify_nth [OF contrast_positions_distinct k, where g = ?g and n1 = n] k
      by (simp only: img) (simp add: specContrast_def)
  qed
  with flat show ?thesis by simp
qed


lemma enhanceBlockContrast_where:
  assumes wf: "wellFormed ctx" and pos: "0 < bw" "0 < bh"
    and inside: "sx + bw \<le> canvasWidth ctx" "sy + bh \<le> canvasHeight ctx"
  shows "enhanceBlockContrast ctx sx sy bw bh f =
           Inr (ctx \<lparr> canvasData :=
                  contrastWhere (\<lambda>px py. sx \<le> px \<and> px < sx + bw \<and> sy \<le> py \<and> py < sy + bh)
                    f (canvasWidth ctx) (canvasData ctx) \<rparr>)"
proof -
  let ?w = "canvasWidth ctx" and ?D = "canvasData ctx"
  define P where "P = map (\<lambda>m. ?D ! (((sy + (m div 4) div bw) * ?w + (sx + (m div 4) mod bw)) * 4
                           + m mod 4)) [0..<bw * bh * 4]"
  have get: "getImageData ctx sx sy bw bh = Inr \<lparr> bufWidth = bw, bufHeight = bh, pixelData = P \<rparr>"
    unfolding P_def by (rule getImageData_inside [OF wf pos inside])
  have lenP: "length P = (bw * bh) * 4" by (simp add: P_def)
  have loop: "fold (\<lambda>p. fold (\<lambda>c. contrastStep (contrastCoefficient f) (4 * p) c) [0..<3])
           [0..<(length P + 3) div 4] P = specContrast f P"
    by (rule contrast_loop [OF lenP])
  have data: "map (\<lambda>k. let px = (k div 4) mod ?w; py = (k div 4) div ?w
                in if sx \<le> px \<and> px < sx + bw \<and> sy \<le> py \<and> py < sy + bh
                   then specContrast f P ! (((py - sy) * bw + (px - sx)) * 4 + k mod 4)
                   else ?D ! k)
           [0..<length ?D] =
        contrastWhere (\<lambda>px py. sx \<le> px \<and> px < sx + bw \<and> sy \<le> py \<and> py < sy + bh) f ?w ?D"
    unfolding contrastWhere_def
  proof (rule map_cong [OF refl])
    fix k assume "k \<in> set [0..<length ?D]"
    define px py c where "px = (k div 4) mod ?w" and "py = (k div 4) div ?w" and "c = k mod 4"
    have c4: "c < 4" by (simp add: c_def)
    have kk: "(py * ?w + px) * 4 + c = k"
      unfolding px_def py_def c_def by (rule pos_compose)
    show "(let px = (k div 4) mod ?w; py = (k div 4) div ?w
                in if sx \<le> px \<and> px < sx + bw \<and> sy \<le> py \<and> py < sy + bh
                   then specContrast f P ! (((py - sy) * bw + (px - sx)) * 4 + k mod 4)
                   else ?D ! k) =
          (if (sx \<le> (k div 4) mod ?w \<and> (k div 4) mod ?w < sx + bw \<and>
               sy \<le> (k div 4) div ?w \<and> (k div 4) div ?w < sy + bh) \<and> k mod 4 < 3
           then specContrastByte f (?D ! k) else ?D ! k)"
      unfolding Let_def px_def [symmetric] py_def [symmetric] c_def [symmetric]
    proof (cases "sx \<le> px \<and> px < sx + bw \<and> sy \<le> py \<and> py < sy + bh")
      case False
      show "(if sx \<le> px \<and> px < sx + bw \<and> sy \<le> py \<and> py < sy + bh
           then specContrast f P ! (((py - sy) * bw + (px - sx)) * 4 + c) else ?D ! k) =
          (if (sx \<le> px \<and> px < sx + bw \<and> sy \<le> py \<and> py < sy + bh) \<and> c < 3
           then specContrastByte f (?D ! k) else ?D ! k)"
        by (simp only: False if_False simp_thms)
    next
      case True
      define m where "m = ((py - sy) * bw + (px - sx)) * 4 + c"
      have r: "px - sx < bw" "py - sy < bh" using True by linarith+
      have mlt: "m < bw * bh * 4" unfolding m_def by (rule pos_bound [OF r c4])
      have md: "m mod 4 = c" "(m div 4) mod bw = px - sx" "(m div 4) div bw = py - sy"
        unfolding m_def by (rule pos_decompose [OF r(1) c4])+
      have "P ! m = ?D ! (((sy + (py - sy)) * ?w + (sx + (px - sx))) * 4 + c)"
        using mlt by (simp only: P_def nth_map length_upt diff_zero nth_upt add_0 md)
      also have "\<dots> = ?D ! k"
        using True kk by simp
      finally have Pm: "P ! m = ?D ! k" .
      have "specContrast f P ! m = (if c < 3 then specContrastByte f (?D ! k) else ?D ! k)"
        using mlt by (simp add: specContrast_def lenP md Pm)
      then show "(if sx \<le> px \<and> px < sx + bw \<and> sy \<le> py \<and> py < sy + bh
           then specContrast f P ! (((py - sy) * bw + (px - sx)) * 4 + c) else ?D ! k) =
          (if (sx \<le> px \<and> px < sx + bw \<and> sy \<le> py \<and> py < sy + bh) \<and> c < 3
           then specContrastByte f (?D ! k) else ?D ! k)"
        by (simp only: True if_True simp_thms m_def)
    qed
  qed
  have put: "putImageData ctx \<lparr> bufWidth = bw, bufHeight = bh, pixelData = specContrast f P \<rparr> sx sy =
      ctx \<lparr> canvasData :=
        contrastWhere (\<lambda>px py. sx \<le> px \<and> px < sx + bw \<and> sy \<le> py \<and> py < sy + bh) f ?w ?D \<rparr>"
    by (simp only: putImageData_def imageBuffer.select_convs data)
  show ?thesis
    by (simp only: enhanceBlockContrast_def get sum.case Let_def imageBuffer.select_convs
        imageBuffer.update_convs loop put)
qed


subsubsection \<open>The contrast pass over all blocks\<close>

lemma contrastWhere_length: "length (contrastWhere Q f w dat) = length dat"
  by (simp add: contrastWhere_def)

lemma contrastWhere_compose:
  assumes "\<And>px py. R px py \<Longrightarrow> \<not> Q px py"
  shows "contrastWhere R f w (contrastWhere Q f w D) =
           contrastWhere (\<lambda>px py. Q px py \<or> R px py) f w D"
proof (rule nth_equalityI)
  show "length (contrastWhere R f w (contrastWhere Q f w D)) =
        length (contrastWhere (\<lambda>px py. Q px py \<or> R px py) f w D)"
    by (simp add: contrastWhere_length)
next
  fix k assume "k < length (contrastWhere R f w (contrastWhere Q f w D))"
  then have k: "k < length D" by (simp add: contrastWhere_length)
  show "contrastWhere R f w (contrastWhere Q f w D) ! k =
        contrastWhere (\<lambda>px py. Q px py \<or> R px py) f w D ! k"
    using k assms [of "(k div 4) mod w" "(k div 4) div w"]
    by (auto simp: contrastWhere_def)
qed

lemma contrastWhere_none: "contrastWhere (\<lambda>px py. False) f w D = D"
  by (simp add: contrastWhere_def map_nth)

lemma contrastWhere_all:
  assumes "length D = w * h * 4"
  shows "contrastWhere (\<lambda>px py. px < w \<and> py < h) f w D = specContrast f D"
  unfolding contrastWhere_def specContrast_def
proof (rule map_cong [OF refl])
  fix k assume "k \<in> set [0..<length D]"
  then have k: "k < w * h * 4" using assms by simp
  then have w: "0 < w" by (cases "w = 0") simp_all
  from k have "k div 4 < h * w" by (simp add: mult.commute less_mult_imp_div_less)
  then have "(k div 4) div w < h" by (rule less_mult_imp_div_less)
  moreover have "(k div 4) mod w < w" using w by simp
  ultimately show "(if ((k div 4) mod w < w \<and> (k div 4) div w < h) \<and> k mod 4 < 3
      then specContrastByte f (D ! k) else D ! k) =
     (if k mod 4 < 3 then specContrastByte f (D ! k) else D ! k)"
    by simp
qed

lemma block_start_inside:
  fixes a n bs :: nat
  assumes "0 < bs" "a < (n + bs - 1) div bs"
  shows "a * bs < n"
proof -
  from assms(2) have "Suc a \<le> (n + bs - 1) div bs" by simp
  then have "Suc a * bs \<le> n + bs - 1"
    using assms(1) by (simp add: less_eq_div_iff_mult_less_eq)
  then show ?thesis using assms(1) by simp
qed

lemma blocks_reach_end:
  fixes n bs :: nat
  assumes "0 < bs"
  shows "n \<le> ((n + bs - 1) div bs) * bs"
proof (rule ccontr)
  assume "\<not> n \<le> ((n + bs - 1) div bs) * bs"
  then have "Suc ((n + bs - 1) div bs) * bs \<le> n + bs - 1" by simp
  then have "Suc ((n + bs - 1) div bs) \<le> (n + bs - 1) div bs"
    using assms by (simp add: less_eq_div_iff_mult_less_eq)
  then show False by simp
qed

lemma contrast_columns:
  assumes bs: "0 < bs"
    and bh: "0 < bh" "sy + bh \<le> canvasHeight ctx"
  shows "wellFormed c \<Longrightarrow> canvasWidth c = canvasWidth ctx \<Longrightarrow> canvasHeight c = canvasHeight ctx \<Longrightarrow>
    canvasData c = contrastWhere Q f (canvasWidth ctx) D \<Longrightarrow>
    (\<And>px py. Q px py \<Longrightarrow> \<not> (sy \<le> py \<and> py < sy + bh \<and> a * bs \<le> px)) \<Longrightarrow>
    foldE (\<lambda>startX c. enhanceBlockContrast c startX sy (min bs (canvasWidth ctx - startX)) bh f)
      (map (\<lambda>k. k * bs) [a..<(canvasWidth ctx + bs - 1) div bs]) c =
    Inr (c \<lparr> canvasData :=
           contrastWhere (\<lambda>px py. Q px py \<or>
               (sy \<le> py \<and> py < sy + bh \<and> a * bs \<le> px \<and> px < canvasWidth ctx))
             f (canvasWidth ctx) D \<rparr>)"
proof (induction "(canvasWidth ctx + bs - 1) div bs - a" arbitrary: a c Q)
  case 0
  then have e: "[a..<(canvasWidth ctx + bs - 1) div bs] = []" by simp
  have q: "(\<lambda>px py. Q px py \<or>
               (sy \<le> py \<and> py < sy + bh \<and> a * bs \<le> px \<and> px < canvasWidth ctx)) = Q"
  proof (intro ext)
    fix px py
    have "canvasWidth ctx \<le> a * bs"
    proof -
      have "canvasWidth ctx \<le> ((canvasWidth ctx + bs - 1) div bs) * bs"
        by (rule blocks_reach_end [OF bs])
      also have "\<dots> \<le> a * bs" using "0.hyps" by (intro mult_le_mono1) simp
      finally show ?thesis .
    qed
    then show "(Q px py \<or> (sy \<le> py \<and> py < sy + bh \<and> a * bs \<le> px \<and> px < canvasWidth ctx)) = Q px py"
      by auto
  qed
  have "c \<lparr> canvasData := contrastWhere Q f (canvasWidth ctx) D \<rparr> = c"
    using "0.prems"(4) by simp
  then show ?case unfolding e q list.map foldE.simps by simp
next
  case (Suc n)
  let ?w = "canvasWidth ctx" and ?nx = "(canvasWidth ctx + bs - 1) div bs"
  from Suc.hyps(2) have a: "a < ?nx" by simp
  then have upt: "[a..<?nx] = a # [Suc a..<?nx]" by (rule upt_conv_Cons)
  have sx: "a * bs < ?w" by (rule block_start_inside [OF bs a])
  define bw where "bw = min bs (?w - a * bs)"
  have bw: "0 < bw" "a * bs + bw \<le> canvasWidth c"
    using sx bs by (simp_all add: bw_def Suc.prems(2))
  let ?R = "\<lambda>px py. a * bs \<le> px \<and> px < a * bs + bw \<and> sy \<le> py \<and> py < sy + bh"
  have block: "enhanceBlockContrast c (a * bs) sy bw bh f =
      Inr (c \<lparr> canvasData := contrastWhere (\<lambda>px py. Q px py \<or> ?R px py) f ?w D \<rparr>)"
  proof -
    have "contrastWhere ?R f ?w (contrastWhere Q f ?w D) =
        contrastWhere (\<lambda>px py. Q px py \<or> ?R px py) f ?w D"
      by (rule contrastWhere_compose) (use Suc.prems(5) in blast)
    then show ?thesis
      using enhanceBlockContrast_where [OF Suc.prems(1) bw(1) bh(1) bw(2), of sy f] bh(2)
      by (simp add: Suc.prems)
  qed
  let ?c1 = "c \<lparr> canvasData := contrastWhere (\<lambda>px py. Q px py \<or> ?R px py) f ?w D \<rparr>"
  have wf1: "wellFormed ?c1"
    using Suc.prems(1,4) by (simp add: wellFormed_def contrastWhere_length)
  have n: "n = ?nx - Suc a" using Suc.hyps(2) by simp
  have disj1: "\<And>px py. Q px py \<or> ?R px py \<Longrightarrow>
      \<not> (sy \<le> py \<and> py < sy + bh \<and> Suc a * bs \<le> px)"
  proof -
    fix px py
    assume h: "Q px py \<or> ?R px py"
    show "\<not> (sy \<le> py \<and> py < sy + bh \<and> Suc a * bs \<le> px)"
    proof
      assume b: "sy \<le> py \<and> py < sy + bh \<and> Suc a * bs \<le> px"
      then have le: "a * bs \<le> px" by simp
      from h show False
      proof
        assume "Q px py"
        from Suc.prems(5) [OF this] b le show False by simp
      next
        assume "?R px py"
        then have "px < a * bs + bw" by simp
        moreover have "bw \<le> bs" by (simp add: bw_def)
        ultimately have "px < a * bs + bs" by linarith
        with b show False by simp
      qed
    qed
  qed
  have rest: "foldE (\<lambda>startX c. enhanceBlockContrast c startX sy (min bs (?w - startX)) bh f)
      (map (\<lambda>k. k * bs) [Suc a..<?nx]) ?c1 =
    Inr (?c1 \<lparr> canvasData :=
           contrastWhere (\<lambda>px py. (Q px py \<or> ?R px py) \<or>
               (sy \<le> py \<and> py < sy + bh \<and> Suc a * bs \<le> px \<and> px < ?w))
             f ?w D \<rparr>)"
    by (rule Suc.hyps(1) [OF n wf1 _ _ _ disj1]) (simp_all add: Suc.prems)
  have same: "(\<lambda>px py. (Q px py \<or> ?R px py) \<or>
               (sy \<le> py \<and> py < sy + bh \<and> Suc a * bs \<le> px \<and> px < ?w)) =
        (\<lambda>px py. Q px py \<or> (sy \<le> py \<and> py < sy + bh \<and> a * bs \<le> px \<and> px < ?w))"
    using sx by (intro ext) (auto simp: bw_def)
  show ?case
    unfolding upt list.map foldE.simps bw_def [symmetric] block sum.case rest same
    by simp
qed


lemma contrast_rows:
  assumes bs: "0 < bs"
  shows "wellFormed c \<Longrightarrow> canvasWidth c = canvasWidth ctx \<Longrightarrow> canvasHeight c = canvasHeight ctx \<Longrightarrow>
    canvasData c =
      contrastWhere (\<lambda>px py. px < canvasWidth ctx \<and> py < b * bs \<and> py < canvasHeight ctx)
        f (canvasWidth ctx) D \<Longrightarrow>
    foldE (\<lambda>startY. foldE (\<lambda>startX c.
              enhanceBlockContrast c startX startY
                (min bs (canvasWidth ctx - startX)) (min bs (canvasHeight ctx - startY)) f)
            (blockStarts (canvasWidth ctx) bs))
      (map (\<lambda>k. k * bs) [b..<(canvasHeight ctx + bs - 1) div bs]) c =
    Inr (c \<lparr> canvasData :=
           contrastWhere (\<lambda>px py. px < canvasWidth ctx \<and> py < canvasHeight ctx)
             f (canvasWidth ctx) D \<rparr>)"
proof (induction "(canvasHeight ctx + bs - 1) div bs - b" arbitrary: b c)
  case 0
  let ?w = "canvasWidth ctx" and ?h = "canvasHeight ctx"
  from 0 have e: "[b..<(?h + bs - 1) div bs] = []" by simp
  have "?h \<le> ((?h + bs - 1) div bs) * bs"
    by (rule blocks_reach_end [OF bs])
  also have "\<dots> \<le> b * bs" using "0.hyps" by (intro mult_le_mono1) simp
  finally have "?h \<le> b * bs" .
  then have q: "(\<lambda>px py. px < ?w \<and> py < b * bs \<and> py < ?h) = (\<lambda>px py. px < ?w \<and> py < ?h)"
    by (intro ext) auto
  have "c \<lparr> canvasData := contrastWhere (\<lambda>px py. px < ?w \<and> py < ?h) f ?w D \<rparr> = c"
    using "0.prems"(4) unfolding q by simp
  then show ?case unfolding e list.map foldE.simps by simp
next
  case (Suc n)
  let ?w = "canvasWidth ctx" and ?h = "canvasHeight ctx" and ?ny = "(canvasHeight ctx + bs - 1) div bs"
  let ?Q = "\<lambda>px py. px < ?w \<and> py < b * bs \<and> py < ?h"
  from Suc.hyps(2) have b: "b < ?ny" by simp
  then have upt: "[b..<?ny] = b # [Suc b..<?ny]" by (rule upt_conv_Cons)
  have sy: "b * bs < ?h" by (rule block_start_inside [OF bs b])
  define bh where "bh = min bs (?h - b * bs)"
  have bh: "0 < bh" "b * bs + bh \<le> ?h"
    using sy bs by (simp_all add: bh_def)
  have disj: "\<And>px py. ?Q px py \<Longrightarrow> \<not> (b * bs \<le> py \<and> py < b * bs + bh \<and> 0 * bs \<le> px)"
    by simp
  have band: "foldE (\<lambda>startX c. enhanceBlockContrast c startX (b * bs) (min bs (?w - startX)) bh f)
      (map (\<lambda>k. k * bs) [0..<(?w + bs - 1) div bs]) c =
    Inr (c \<lparr> canvasData :=
           contrastWhere (\<lambda>px py. ?Q px py \<or>
               (b * bs \<le> py \<and> py < b * bs + bh \<and> 0 * bs \<le> px \<and> px < ?w))
             f ?w D \<rparr>)"
    by (rule contrast_columns [OF bs bh Suc.prems(1,2,3,4) disj])
  have same: "(\<lambda>px py. ?Q px py \<or>
               (b * bs \<le> py \<and> py < b * bs + bh \<and> 0 * bs \<le> px \<and> px < ?w)) =
        (\<lambda>px py. px < ?w \<and> py < Suc b * bs \<and> py < ?h)"
  proof (intro ext)
    fix px py
    have "bh \<le> bs" "b * bs + bh \<le> ?h" "bh = bs \<or> b * bs + bh = ?h"
      using sy by (auto simp: bh_def)
    then show "(?Q px py \<or> (b * bs \<le> py \<and> py < b * bs + bh \<and> 0 * bs \<le> px \<and> px < ?w)) =
        (px < ?w \<and> py < Suc b * bs \<and> py < ?h)"
      by (simp add: add.commute) linarith
  qed
  let ?c1 = "c \<lparr> canvasData :=
      contrastWhere (\<lambda>px py. px < ?w \<and> py < Suc b * bs \<and> py < ?h) f ?w D \<rparr>"
  have wf1: "wellFormed ?c1"
    using Suc.prems(1,4) by (simp add: wellFormed_def contrastWhere_length)
  have n: "n = ?ny - Suc b" using Suc.hyps(2) by simp
  have rest: "foldE (\<lambda>startY. foldE (\<lambda>startX c.
              enhanceBlockContrast c startX startY (min bs (?w - startX)) (min bs (?h - startY)) f)
            (blockStarts ?w bs))
      (map (\<lambda>k. k * bs) [Suc b..<?ny]) ?c1 =
    Inr (?c1 \<lparr> canvasData := contrastWhere (\<lambda>px py. px < ?w \<and> py < ?h) f ?w D \<rparr>)"
    by (rule Suc.hyps(1) [OF n wf1]) (simp_all add: Suc.prems)
  show ?case
    unfolding upt list.map foldE.simps blockStarts_def bh_def [symmetric] band sum.case same
      rest [unfolded blockStarts_def]
    by simp
qed

lemma applyContrastEnhancement_spec:
  assumes wf: "wellFormed ctx"
  shows "applyContrastEnhancement ctx (canvasWidth ctx) (canvasHeight ctx) f =
           Inr (ctx \<lparr> canvasData := specContrast f (canvasData ctx) \<rparr>)"
proof -
  let ?w = "canvasWidth ctx" and ?h = "canvasHeight ctx" and ?D = "canvasData ctx"
  have start: "?D = contrastWhere (\<lambda>px py. px < ?w \<and> py < 0 * 1024 \<and> py < ?h) f ?w ?D"
    by (simp add: contrastWhere_none)
  have len: "length ?D = ?w * ?h * 4"
    using wf by (simp add: wellFormed_def)
  have "foldE (\<lambda>startY. foldE (\<lambda>startX c.
              enhanceBlockContrast c startX startY (min 1024 (?w - startX)) (min 1024 (?h - startY)) f)
            (blockStarts ?w 1024))
      (map (\<lambda>k. k * 1024) [0..<(?h + 1024 - 1) div 1024]) ctx =
    Inr (ctx \<lparr> canvasData := contrastWhere (\<lambda>px py. px < ?w \<and> py < ?h) f ?w ?D \<rparr>)"
    by (rule contrast_rows [OF _ wf refl refl start]) simp
  then show ?thesis
    by (simp add: applyContrastEnhancement_def Let_def blockStarts_def contrastWhere_all [OF len])
qed


subsubsection \<open>The full enhancement\<close>




text \<open>
  The full-frame sharpening pass and the contrast pass write colour bytes only: every
  alpha byte of a well-formed canvas is the one of the source.
\<close>

lemma full_frame_and_contrast_keep_alpha:
  assumes wf: "wellFormed ctx" and pos: "0 < canvasWidth ctx" "0 < canvasHeight ctx"
    and k: "k < length (canvasData ctx)" "k mod 4 = 3"
  shows "\<exists>sharp out.
           applyHighQualitySharpening ctx (canvasWidth ctx) (canvasHeight ctx) s = Inr sharp \<and>
           canvasData sharp ! k = canvasData ctx ! k \<and>
           applyContrastEnhancement ctx (canvasWidth ctx) (canvasHeight ctx) f = Inr out \<and>
           canvasData out ! k = canvasData ctx ! k"
  using k
  by (simp add: applyHighQualitySharpening_spec [OF wf pos] applyContrastEnhancement_spec [OF wf]
      specSharpen_def specSharpenByte_def specContrast_def)


subsection \<open>Sharpening on concrete canvases\<close>

lemma upt_small: "[1..<2] = [1]" "[0..<3] = [0, 1, 2]" "[0..<2] = [0, 1]"
  by (simp_all add: upt_rec)

lemmas number_defs =
  element_def toUint8Clamp_def storeElement_def clamp255_def addNumber_def scaleElement_def

lemmas canvas_defs =
  getImageData_def createImageData_def putImageData_def canvasByte_def upt_small upt_rec

lemmas sharpen_defs =
  sharpenInterior_def sharpenStep_def convolve_def sharpenKernel_def

lemmas tiled_defs =
  applyOptimizedSharpening_def blockStarts_def processImageBlock_def copyCenterPixel_def

text \<open>
  C1: the code at a failing input. On the 3x3 canvas at strength 0.3 (level 1) the
  full-frame pass turns the middle pixel into \<open>(220, 220, 220)\<close> and leaves the border.
  The tiled pass, whose single 512-pixel tile covers the canvas, leaves \<open>(0, 0, 0)\<close> in
  the middle: its output is the full-frame result moved one pixel up and to the left,
  and what it reads past the end of the block is stored as 0.
\<close>

theorem C1_tiled_differs_on_interior:
  "enhancementStrength 1 = Some (3 / 10) \<and>
   applyHighQualitySharpening exampleCanvas 3 3 (3 / 10) =
     Inr \<lparr> canvasWidth = 3, canvasHeight = 3,
           canvasData =
             [0, 0, 0, 255,   0, 0, 0, 255,         0, 0, 0, 255,
              0, 0, 0, 255,   220, 220, 220, 255,   0, 0, 0, 255,
              0, 0, 0, 255,   0, 0, 0, 255,         0, 0, 0, 255] \<rparr> \<and>
   applyOptimizedSharpening exampleCanvas 3 3 (3 / 10) =
     Inr \<lparr> canvasWidth = 3, canvasHeight = 3,
           canvasData =
             [220, 220, 220, 255,   0, 0, 0, 255,   0, 0, 0, 255,
              0, 0, 0, 255,         0, 0, 0, 255,   0, 0, 0, 0,
              0, 0, 0, 0,           0, 0, 0, 0,     0, 0, 0, 0] \<rparr>"
  by (simp add: enhancementStrength_def applyHighQualitySharpening_def exampleCanvas_def
      tiled_defs sharpen_defs canvas_defs number_defs Let_def)



end
